theory Spec2Isabelle
  imports Main "HOL-Library.Word"
begin

section \<open>The data of \<^verbatim>\<open>src/main.cpp\<close>\<close>

text \<open>
  The program keeps one static array \<^verbatim>\<open>static int s[MAXC][MAXC]\<close> with
  \<^verbatim>\<open>MAXC = 5005\<close>. A C++ \<^verbatim>\<open>int\<close> is a 32-bit two's complement value: it is
  modelled as a \<open>32 word\<close>, read through \<open>sint\<close> and compared as a signed value.
  Signed overflow is undefined in C++; the model gives it the wrap-around of the usual
  compilation, and the statements about printed numbers assume that the values of the
  points sum up inside the range of \<^verbatim>\<open>int\<close> (\<open>fits\<close> below).

  The array is a store from a row and a column to a cell. An access whose index
  depends on the input goes through a bounds check, and an access outside
  \<open>[0, MAXC)\<close>, undefined behaviour in C++, is the error value \<open>OutOfBounds\<close>. Static
  storage is zero-initialised: the program starts on \<open>zero_grid\<close>.

  The input is the window side \<open>m\<close> and the list of the points \<^verbatim>\<open>x y v\<close> that
  follow the first line; the count \<open>n\<close> of the first line is the length of that
  list. The coordinates and \<open>m\<close> are used as indices only, so they are mathematical
  integers (a shifted coordinate that left the 32-bit range is outside the array
  anyway).
\<close>

type_synonym int32 = "32 word"

type_synonym grid = "nat \<Rightarrow> nat \<Rightarrow> int32"

type_synonym point = "int \<times> int \<times> int32"

datatype error = OutOfBounds

definition MAXC :: nat where
  "MAXC = 5005"

definition zero_grid :: grid where
  "zero_grid = (\<lambda>i j. 0)"

definition px :: "point \<Rightarrow> int" where
  "px p = fst p"

definition py :: "point \<Rightarrow> int" where
  "py p = fst (snd p)"

definition pv :: "point \<Rightarrow> int32" where
  "pv p = snd (snd p)"

definition in_bounds :: "int \<Rightarrow> int \<Rightarrow> bool" where
  "in_bounds i j = (0 \<le> i \<and> i < int MAXC \<and> 0 \<le> j \<and> j < int MAXC)"

subsection \<open>Ingestion: \<^verbatim>\<open>s[x + 1][y + 1] += v\<close>\<close>

definition ingest_point :: "grid \<Rightarrow> point \<Rightarrow> error + grid" where
  "ingest_point s p =
     (let i = px p + 1; j = py p + 1 in
      if in_bounds i j
      then Inr (s(nat i := (s (nat i))(nat j := s (nat i) (nat j) + pv p)))
      else Inl OutOfBounds)"

fun ingest :: "grid \<Rightarrow> point list \<Rightarrow> error + grid" where
  "ingest s [] = Inr s"
| "ingest s (p # ps) =
     (case ingest_point s p of Inl e \<Rightarrow> Inl e | Inr s' \<Rightarrow> ingest s' ps)"

subsection \<open>The prefix sums, built in place\<close>

text \<open>
  \<^verbatim>\<open>for (i = 1; i < MAXC; i++) for (j = 1; j < MAXC; j++)
      s[i][j] += s[i - 1][j] + s[i][j - 1] - s[i - 1][j - 1];\<close>
  The indices are between 0 and \<open>MAXC - 1\<close> by the loop bounds.
\<close>

definition build_cell :: "nat \<Rightarrow> nat \<Rightarrow> grid \<Rightarrow> grid" where
  "build_cell i j s =
     s(i := (s i)(j := s i j + (s (i - 1) j + s i (j - 1) - s (i - 1) (j - 1))))"

definition build_row :: "nat \<Rightarrow> grid \<Rightarrow> grid" where
  "build_row i s = fold (build_cell i) [1..<MAXC] s"

definition buildPrefixSums :: "grid \<Rightarrow> grid" where
  "buildPrefixSums s = fold build_row [1..<MAXC] s"

subsection \<open>The scan of the windows\<close>

text \<open>
  \<^verbatim>\<open>int ans = 0;
  for (i = m; i < MAXC; i++) for (j = m; j < MAXC; j++) {
      int sum = s[i][j] - s[i - m][j] - s[i][j - m] + s[i - m][j - m];
      ans = max(ans, sum);
  }\<close>
  Here the indices depend on the input \<open>m\<close>, so every read is checked.
  \<^verbatim>\<open>std::max(a, b)\<close> is \<^verbatim>\<open>(a < b) ? b : a\<close> on signed values.
\<close>

definition rd :: "grid \<Rightarrow> int \<Rightarrow> int \<Rightarrow> error + int32" where
  "rd s i j = (if in_bounds i j then Inr (s (nat i) (nat j)) else Inl OutOfBounds)"

definition window_sum :: "grid \<Rightarrow> int \<Rightarrow> int \<Rightarrow> int \<Rightarrow> error + int32" where
  "window_sum s m i j =
     (case rd s i j of Inl e \<Rightarrow> Inl e | Inr a \<Rightarrow>
       (case rd s (i - m) j of Inl e \<Rightarrow> Inl e | Inr b \<Rightarrow>
         (case rd s i (j - m) of Inl e \<Rightarrow> Inl e | Inr c \<Rightarrow>
           (case rd s (i - m) (j - m) of Inl e \<Rightarrow> Inl e | Inr d \<Rightarrow>
              Inr (a - b - c + d)))))"

definition smax :: "int32 \<Rightarrow> int32 \<Rightarrow> int32" where
  "smax a b = (if sint a < sint b then b else a)"

definition scan_cell :: "grid \<Rightarrow> int \<Rightarrow> int \<Rightarrow> int \<Rightarrow> error + int32 \<Rightarrow> error + int32" where
  "scan_cell s m i j r =
     (case r of Inl e \<Rightarrow> Inl e | Inr ans \<Rightarrow>
       (case window_sum s m i j of Inl e \<Rightarrow> Inl e | Inr wsum \<Rightarrow> Inr (smax ans wsum)))"

definition scan_row :: "grid \<Rightarrow> int \<Rightarrow> int \<Rightarrow> error + int32 \<Rightarrow> error + int32" where
  "scan_row s m i r = fold (scan_cell s m i) [m..int MAXC - 1] r"

definition maxWindowSum :: "int \<Rightarrow> grid \<Rightarrow> error + int32" where
  "maxWindowSum m s = fold (scan_row s m) [m..int MAXC - 1] (Inr 0)"

subsection \<open>The program\<close>

definition main :: "int \<Rightarrow> point list \<Rightarrow> error + int32" where
  "main m pts =
     (case ingest zero_grid pts of
        Inl e \<Rightarrow> Inl e
      | Inr s \<Rightarrow> maxWindowSum m (buildPrefixSums s))"

section \<open>The specification's vocabulary\<close>

text \<open>
  The specification speaks of a coordinate bound \<open>C\<close> with a grid of \<open>C + 1\<close> rows
  and columns, scanned for \<open>m \<le> i, j \<le> C\<close>. The array has \<open>MAXC\<close> rows and the
  loops run while \<open>i < MAXC\<close>, so \<open>C = MAXC - 1 = 5004\<close>.
\<close>

definition C :: int where
  "C = int MAXC - 1"

text \<open>
  A window of side \<open>m\<close> whose lowest captured coordinates are \<open>(a, b)\<close> captures the
  points with \<open>a \<le> x \<le> a + m - 1\<close> and \<open>b \<le> y \<le> b + m - 1\<close>; for the window that
  the scan names \<open>(i, j)\<close> these are \<open>a = i - m\<close> and \<open>b = j - m\<close>. The value of a
  window is the sum of the values of its points, and the brute force is the largest
  value over the placements \<open>0 \<le> a, b \<le> C - m\<close>. These follow the words of the
  specification, not the code.
\<close>

definition captured :: "int \<Rightarrow> int \<Rightarrow> int \<Rightarrow> point \<Rightarrow> bool" where
  "captured m a b p = (a \<le> px p \<and> px p < a + m \<and> b \<le> py p \<and> py p < b + m)"

definition windowValue :: "int \<Rightarrow> int \<Rightarrow> int \<Rightarrow> point list \<Rightarrow> int" where
  "windowValue m a b pts = (\<Sum>p\<leftarrow>filter (captured m a b) pts. sint (pv p))"

definition bruteForce :: "int \<Rightarrow> point list \<Rightarrow> int" where
  "bruteForce m pts = Max ((\<lambda>(a, b). windowValue m a b pts) ` ({0..C - m} \<times> {0..C - m}))"

text \<open>The total of the values given at one coordinate, and the largest single value.\<close>

definition coordTotal :: "point list \<Rightarrow> int \<Rightarrow> int \<Rightarrow> int" where
  "coordTotal pts x y = (\<Sum>p\<leftarrow>filter (\<lambda>p. px p = x \<and> py p = y) pts. sint (pv p))"

definition maxPointValue :: "point list \<Rightarrow> int" where
  "maxPointValue pts = (if pts = [] then 0 else Max (set (map (\<lambda>p. sint (pv p)) pts)))"

text \<open>
  The points whose shifted cell is a cell of the array with a positive row and column
  (\<open>0 \<le> x, y \<le> C - 1\<close>), and the inputs whose values, taken absolutely, sum up to
  less than \<open>2^31\<close>: then the sum of the values of any of the points is inside the
  range of \<^verbatim>\<open>int\<close>, in particular every cell of the table and every window sum.
\<close>

definition valid_point :: "point \<Rightarrow> bool" where
  "valid_point p = (0 \<le> px p \<and> px p < C \<and> 0 \<le> py p \<and> py p < C)"

definition fits :: "point list \<Rightarrow> bool" where
  "fits pts = ((\<Sum>p\<leftarrow>pts. \<bar>sint (pv p)\<bar>) < 2 ^ 31)"

section \<open>Auxiliary notions of the proofs\<close>

text \<open>
  The content of a cell after ingestion, the table that the in-place loop computes
  (as a recursion on the indices), the grid in the middle of the loop (the cells
  before row \<open>i\<close>, column \<open>n\<close> are done), the sum of a rectangle of cells, and the
  value of a window in machine arithmetic.
\<close>

definition cell_total :: "point list \<Rightarrow> nat \<Rightarrow> nat \<Rightarrow> int32" where
  "cell_total pts i j =
     sum_list (map pv (filter (\<lambda>p. px p + 1 = int i \<and> py p + 1 = int j) pts))"

fun table :: "grid \<Rightarrow> nat \<Rightarrow> nat \<Rightarrow> int32" where
  "table s 0 j = s 0 j"
| "table s (Suc i) 0 = s (Suc i) 0"
| "table s (Suc i) (Suc j) =
     s (Suc i) (Suc j) + (table s i (Suc j) + table s (Suc i) j - table s i j)"

definition partial :: "grid \<Rightarrow> nat \<Rightarrow> nat \<Rightarrow> grid" where
  "partial s i n =
     (\<lambda>a b. if (1 \<le> a \<and> a < i \<and> 1 \<le> b \<and> b < MAXC) \<or> (a = i \<and> 1 \<le> b \<and> b < n)
            then table s a b else s a b)"

definition rect :: "grid \<Rightarrow> nat set \<Rightarrow> nat set \<Rightarrow> int32" where
  "rect s A B = (\<Sum>a\<in>A. \<Sum>b\<in>B. s a b)"

definition word_window :: "int \<Rightarrow> int \<Rightarrow> int \<Rightarrow> point list \<Rightarrow> int32" where
  "word_window m a b pts = sum_list (map pv (filter (captured m a b) pts))"

section \<open>Ingestion and the in-place construction\<close>

lemma cell_total_Nil: "cell_total [] i j = 0"
  by (simp add: cell_total_def)

lemma cell_total_Cons:
  "cell_total (p # ps) i j =
     (if px p + 1 = int i \<and> py p + 1 = int j then pv p else 0) + cell_total ps i j"
  by (simp add: cell_total_def)

lemma ingest_point_ok:
  assumes "in_bounds (px p + 1) (py p + 1)"
  shows "ingest_point s p =
           Inr (\<lambda>i j. s i j + (if px p + 1 = int i \<and> py p + 1 = int j then pv p else 0))"
proof -
  have "s(nat (px p + 1) := (s (nat (px p + 1)))(nat (py p + 1) :=
           s (nat (px p + 1)) (nat (py p + 1)) + pv p))
        = (\<lambda>i j. s i j + (if px p + 1 = int i \<and> py p + 1 = int j then pv p else 0))"
    using assms by (auto simp: in_bounds_def fun_eq_iff)
  with assms show ?thesis by (simp add: ingest_point_def Let_def)
qed

lemma ingest_ok:
  "\<forall>p\<in>set pts. in_bounds (px p + 1) (py p + 1) \<Longrightarrow>
     ingest s pts = Inr (\<lambda>i j. s i j + cell_total pts i j)"
proof (induction pts arbitrary: s)
  case Nil
  show ?case by (simp add: cell_total_Nil)
next
  case (Cons p ps)
  then show ?case
    by (simp add: ingest_point_ok cell_total_Cons add.assoc)
qed

lemma ingest_fails:
  "\<not> (\<forall>p\<in>set pts. in_bounds (px p + 1) (py p + 1)) \<Longrightarrow> ingest s pts = Inl OutOfBounds"
proof (induction pts arbitrary: s)
  case Nil
  then show ?case by simp
next
  case (Cons p ps)
  show ?case
  proof (cases "in_bounds (px p + 1) (py p + 1)")
    case True
    with Cons show ?thesis by (simp add: ingest_point_ok)
  next
    case False
    then show ?thesis by (simp add: ingest_point_def Let_def)
  qed
qed

lemma table_col0: "table s i 0 = s i 0"
  by (cases i) simp_all

lemma partial_read:
  "a \<le> i \<Longrightarrow> b < MAXC \<Longrightarrow> a < i \<or> b < n \<Longrightarrow> partial s i n a b = table s a b"
  by (cases a; cases b) (auto simp: partial_def)

lemma build_cell_partial:
  assumes "1 \<le> i" "1 \<le> n" "n < MAXC"
  shows "build_cell i n (partial s i n) = partial s i (Suc n)"
proof -
  obtain i' n' where i: "i = Suc i'" and n: "n = Suc n'"
    using assms by (cases i; cases n) auto
  have r1: "partial s i n (i - 1) n = table s i' n"
    using assms i by (simp add: partial_read)
  have r2: "partial s i n i (n - 1) = table s i n'"
    using assms n by (simp add: partial_read)
  have r3: "partial s i n (i - 1) (n - 1) = table s i' n'"
    using assms i n by (simp add: partial_read)
  have r0: "partial s i n i n = s i n"
    by (auto simp: partial_def)
  have new: "partial s i n i n + (partial s i n (i - 1) n + partial s i n i (n - 1)
               - partial s i n (i - 1) (n - 1)) = table s i n"
    unfolding r0 r1 r2 r3 by (simp add: i n)
  show ?thesis
    unfolding build_cell_def new
    using assms by (auto simp: partial_def fun_eq_iff)
qed

lemma build_row_partial:
  assumes "1 \<le> i"
  shows "1 \<le> n \<Longrightarrow> n \<le> MAXC \<Longrightarrow>
           fold (build_cell i) [Suc 0..<n] (partial s i (Suc 0)) = partial s i n"
proof (induction n)
  case 0
  then show ?case by simp
next
  case (Suc n)
  show ?case
  proof (cases "n = 0")
    case True
    then show ?thesis by simp
  next
    case False
    with Suc assms show ?thesis
      by (simp add: build_cell_partial)
  qed
qed

lemma partial_next_row: "1 \<le> i \<Longrightarrow> partial s i MAXC = partial s (Suc i) (Suc 0)"
  by (auto simp: partial_def fun_eq_iff)

lemma partial_start: "partial s (Suc 0) (Suc 0) = s"
  by (auto simp: partial_def fun_eq_iff)

lemma build_rows_partial:
  "1 \<le> n \<Longrightarrow> fold build_row [Suc 0..<n] s = partial s n (Suc 0)"
proof (induction n)
  case 0
  then show ?case by simp
next
  case (Suc n)
  show ?case
  proof (cases "n = 0")
    case True
    then show ?thesis by (simp add: partial_start)
  next
    case False
    have "1 \<le> MAXC" by (simp add: MAXC_def)
    with False Suc show ?thesis
      by (simp add: build_row_def build_row_partial partial_next_row)
  qed
qed

lemma buildPrefixSums_table:
  "buildPrefixSums s =
     (\<lambda>a b. if 1 \<le> a \<and> a < MAXC \<and> 1 \<le> b \<and> b < MAXC then table s a b else s a b)"
proof -
  have "1 \<le> MAXC" by (simp add: MAXC_def)
  then show ?thesis
    unfolding buildPrefixSums_def
    by (simp add: build_rows_partial) (auto simp: partial_def fun_eq_iff)
qed

section \<open>The table as sums over rectangles\<close>

lemma rect_empty1: "rect s {} B = 0"
  by (simp add: rect_def)

lemma rect_empty2: "rect s A {} = 0"
  by (simp add: rect_def)

lemma rect_union1:
  "finite A \<Longrightarrow> finite A' \<Longrightarrow> A \<inter> A' = {} \<Longrightarrow> rect s (A \<union> A') B = rect s A B + rect s A' B"
  by (simp add: rect_def sum.union_disjoint)

lemma rect_union2:
  "finite B \<Longrightarrow> finite B' \<Longrightarrow> B \<inter> B' = {} \<Longrightarrow> rect s A (B \<union> B') = rect s A B + rect s A B'"
  by (simp add: rect_def sum.union_disjoint sum.distrib)

lemma rect_Suc1: "rect s {Suc 0..Suc i} B = rect s {Suc 0..i} B + (\<Sum>b\<in>B. s (Suc i) b)"
  by (simp add: rect_def)

lemma rect_Suc2:
  "rect s A {Suc 0..Suc j} = rect s A {Suc 0..j} + (\<Sum>a\<in>A. s a (Suc j))"
  by (simp add: rect_def sum.distrib)

lemma table_rect:
  "(\<And>j. s 0 j = 0) \<Longrightarrow> (\<And>i. s i 0 = 0) \<Longrightarrow> table s i j = rect s {Suc 0..i} {Suc 0..j}"
proof (induction s i j rule: table.induct)
  case (1 s j)
  then show ?case by (simp add: rect_empty1)
next
  case (2 s i)
  then show ?case by (simp add: rect_empty2)
next
  case (3 s i j)
  have a: "table s i (Suc j) = rect s {Suc 0..i} {Suc 0..Suc j}"
    and b: "table s (Suc i) j = rect s {Suc 0..Suc i} {Suc 0..j}"
    and c: "table s i j = rect s {Suc 0..i} {Suc 0..j}"
    using 3 by blast+
  have "table s (Suc i) (Suc j) =
          s (Suc i) (Suc j) + (rect s {Suc 0..i} {Suc 0..Suc j}
            + rect s {Suc 0..Suc i} {Suc 0..j} - rect s {Suc 0..i} {Suc 0..j})"
    by (simp only: table.simps a b c)
  also have "\<dots> = rect s {Suc 0..Suc i} {Suc 0..Suc j}"
    by (simp add: rect_def sum.distrib)
  finally show ?case .
qed

lemma nat_range_split:
  "m \<le> i \<Longrightarrow> {Suc 0..i} = {Suc 0..i - m} \<union> {Suc (i - m)..i} \<and> {Suc 0..i - m} \<inter> {Suc (i - m)..i} = {}"
  by auto

lemma window_rect:
  assumes "m \<le> i" "m \<le> j"
  shows "rect s {Suc 0..i} {Suc 0..j} - rect s {Suc 0..i - m} {Suc 0..j}
           - rect s {Suc 0..i} {Suc 0..j - m} + rect s {Suc 0..i - m} {Suc 0..j - m}
         = rect s {Suc (i - m)..i} {Suc (j - m)..j}"
proof -
  note si = nat_range_split [OF assms(1)] and sj = nat_range_split [OF assms(2)]
  have A: "\<And>B. rect s {Suc 0..i} B = rect s {Suc 0..i - m} B + rect s {Suc (i - m)..i} B"
    using si rect_union1 [of "{Suc 0..i - m}" "{Suc (i - m)..i}"] by simp
  have B: "\<And>A. rect s A {Suc 0..j} = rect s A {Suc 0..j - m} + rect s A {Suc (j - m)..j}"
    using sj rect_union2 [of "{Suc 0..j - m}" "{Suc (j - m)..j}"] by simp
  show ?thesis
    by (simp add: A B [of "{Suc 0..i - m}"] B [of "{Suc (i - m)..i}"])
qed

lemma rect_delta_nat:
  assumes "finite A" "finite B"
  shows "rect (\<lambda>a b. if a = x then (if b = y then w else 0) else 0) A B
         = (if x \<in> A \<and> y \<in> B then w else 0)"
proof -
  have inner: "\<And>a. (\<Sum>b\<in>B. if a = x then (if b = y then w else 0) else 0)
                 = (if a = x then (if y \<in> B then w else 0) else 0)"
    using assms(2) by (simp add: sum.delta)
  show ?thesis
    unfolding rect_def inner using assms(1) by (simp add: sum.delta)
qed

lemma rect_delta:
  assumes "finite A" "finite B"
  shows "rect (\<lambda>a b. if X = int a \<and> Y = int b then v else 0) A B
         = (if \<exists>a\<in>A. \<exists>b\<in>B. X = int a \<and> Y = int b then v else 0)"
proof -
  define w where "w = (if 0 \<le> X \<and> 0 \<le> Y then v else 0)"
  have eq: "(\<lambda>a b. if X = int a \<and> Y = int b then v else 0)
            = (\<lambda>a b. if a = nat X then (if b = nat Y then w else 0) else 0)"
    by (auto simp: fun_eq_iff w_def)
  have "rect (\<lambda>a b. if X = int a \<and> Y = int b then v else 0) A B
        = (if nat X \<in> A \<and> nat Y \<in> B then w else 0)"
    unfolding eq by (rule rect_delta_nat [OF assms])
  also have "\<dots> = (if \<exists>a\<in>A. \<exists>b\<in>B. X = int a \<and> Y = int b then v else 0)"
    by (auto simp: w_def)
  finally show ?thesis .
qed

lemma rect_add: "rect (\<lambda>a b. f a b + g a b) A B = rect f A B + rect g A B"
  by (simp add: rect_def sum.distrib)

lemma rect_cell_total:
  assumes "finite A" "finite B"
  shows "rect (cell_total pts) A B
         = sum_list (map pv (filter (\<lambda>p. \<exists>a\<in>A. \<exists>b\<in>B. px p + 1 = int a \<and> py p + 1 = int b) pts))"
proof (induction pts)
  case Nil
  show ?case by (simp add: cell_total_def rect_def)
next
  case (Cons p ps)
  have "rect (cell_total (p # ps)) A B
        = rect (\<lambda>a b. if px p + 1 = int a \<and> py p + 1 = int b then pv p else 0) A B
          + rect (cell_total ps) A B"
    using rect_add [of "\<lambda>a b. if px p + 1 = int a \<and> py p + 1 = int b then pv p else 0" "cell_total ps" A B]
    by (simp add: cell_total_Cons [abs_def])
  then show ?case
    using Cons by (simp add: rect_delta [OF assms])
qed

section \<open>Signed sums without overflow\<close>

lemma sint_word_of_int32:
  "- (2 ^ 31) \<le> k \<Longrightarrow> k < 2 ^ 31 \<Longrightarrow> sint (word_of_int k :: int32) = k"
  by (simp add: sint_sbintrunc' signed_take_bit_int_eq_self)

lemma sum_list_word_of_int:
  "sum_list (xs :: int32 list) = word_of_int (\<Sum>x\<leftarrow>xs. sint x)"
  by (induction xs) simp_all

lemma abs_sum_list_le: "\<bar>\<Sum>x\<leftarrow>xs. f x\<bar> \<le> (\<Sum>x\<leftarrow>xs. \<bar>f x :: int\<bar>)"
  by (induction xs) auto

lemma sint_sum_list:
  fixes xs :: "int32 list"
  assumes "(\<Sum>x\<leftarrow>xs. \<bar>sint x\<bar>) < 2 ^ 31"
  shows "sint (sum_list xs) = (\<Sum>x\<leftarrow>xs. sint x)"
proof -
  have "\<bar>\<Sum>x\<leftarrow>xs. sint x\<bar> < 2 ^ 31"
    using abs_sum_list_le [of sint xs] assms by linarith
  then have "- (2 ^ 31) \<le> (\<Sum>x\<leftarrow>xs. sint x)" and "(\<Sum>x\<leftarrow>xs. sint x) < 2 ^ 31"
    by linarith+
  then show ?thesis
    by (subst sum_list_word_of_int) (rule sint_word_of_int32)
qed

lemma sum_list_abs_filter:
  "(\<Sum>x\<leftarrow>filter P xs. \<bar>f x :: int\<bar>) \<le> (\<Sum>x\<leftarrow>xs. \<bar>f x\<bar>)"
  by (induction xs) auto

section \<open>The window sums of the built table\<close>

lemma valid_in_bounds: "valid_point p \<Longrightarrow> in_bounds (px p + 1) (py p + 1)"
  by (simp add: valid_point_def in_bounds_def C_def)

lemma cell_total_row0: "\<forall>p\<in>set pts. 0 \<le> px p \<Longrightarrow> cell_total pts 0 j = 0"
  by (induction pts) (auto simp: cell_total_Nil cell_total_Cons)

lemma cell_total_col0: "\<forall>p\<in>set pts. 0 \<le> py p \<Longrightarrow> cell_total pts i 0 = 0"
  by (induction pts) (auto simp: cell_total_Nil cell_total_Cons)

lemma ingest_valid:
  "\<forall>p\<in>set pts. valid_point p \<Longrightarrow> ingest zero_grid pts = Inr (cell_total pts)"
  using ingest_ok [of pts zero_grid] by (simp add: valid_in_bounds zero_grid_def)

lemma build_read:
  "buildPrefixSums s a b = (if a < MAXC \<and> b < MAXC then table s a b else s a b)"
  by (cases a; cases b) (simp_all add: buildPrefixSums_table)

lemma in_range_iff:
  assumes "0 \<le> m" "m \<le> i"
  shows "(\<exists>a\<in>{Suc (nat i - nat m)..nat i}. x + 1 = int a) \<longleftrightarrow> (i - m \<le> x \<and> x < i - m + m)"
proof
  assume "\<exists>a\<in>{Suc (nat i - nat m)..nat i}. x + 1 = int a"
  then show "i - m \<le> x \<and> x < i - m + m" using assms by auto
next
  assume "i - m \<le> x \<and> x < i - m + m"
  then have "nat (x + 1) \<in> {Suc (nat i - nat m)..nat i}" and "x + 1 = int (nat (x + 1))"
    using assms by auto
  then show "\<exists>a\<in>{Suc (nat i - nat m)..nat i}. x + 1 = int a" by blast
qed

lemma window_sum_ok:
  assumes v: "\<forall>p\<in>set pts. valid_point p"
    and m: "0 \<le> m" and i: "m \<le> i" "i < int MAXC" and j: "m \<le> j" "j < int MAXC"
  shows "window_sum (buildPrefixSums (cell_total pts)) m i j = Inr (word_window m (i - m) (j - m) pts)"
proof -
  let ?s = "cell_total pts"
  let ?B = "buildPrefixSums ?s"
  have z: "\<And>j. ?s 0 j = 0" "\<And>i. ?s i 0 = 0"
    using v by (simp_all add: cell_total_row0 cell_total_col0 valid_point_def)
  have rd: "\<And>a b. 0 \<le> a \<Longrightarrow> a < int MAXC \<Longrightarrow> 0 \<le> b \<Longrightarrow> b < int MAXC \<Longrightarrow>
              rd ?B a b = Inr (rect ?s {Suc 0..nat a} {Suc 0..nat b})"
    using table_rect [of ?s, OF z] by (simp add: rd_def in_bounds_def build_read nat_less_iff)
  have n: "nat (i - m) = nat i - nat m" "nat (j - m) = nat j - nat m"
    using m i j by simp_all
  have "window_sum ?B m i j =
          Inr (rect ?s {Suc 0..nat i} {Suc 0..nat j} - rect ?s {Suc 0..nat i - nat m} {Suc 0..nat j}
               - rect ?s {Suc 0..nat i} {Suc 0..nat j - nat m}
               + rect ?s {Suc 0..nat i - nat m} {Suc 0..nat j - nat m})"
    using m i j by (simp add: window_sum_def rd n)
  also have "rect ?s {Suc 0..nat i} {Suc 0..nat j} - rect ?s {Suc 0..nat i - nat m} {Suc 0..nat j}
               - rect ?s {Suc 0..nat i} {Suc 0..nat j - nat m}
               + rect ?s {Suc 0..nat i - nat m} {Suc 0..nat j - nat m}
             = rect ?s {Suc (nat i - nat m)..nat i} {Suc (nat j - nat m)..nat j}"
    using m i j by (intro window_rect) simp_all
  also have "\<dots> = word_window m (i - m) (j - m) pts"
    unfolding word_window_def captured_def
    using m i(1) j(1)
    by (subst rect_cell_total) (simp_all add: in_range_iff cong: conj_cong)
  finally show ?thesis .
qed

section \<open>The scan computes a signed maximum\<close>

lemma fold_scan_cell:
  "\<forall>j\<in>set js. window_sum s m i j = Inr (f j) \<Longrightarrow>
     fold (scan_cell s m i) js (Inr a) = Inr (fold (\<lambda>j a. smax a (f j)) js a)"
  by (induction js arbitrary: a) (simp_all add: scan_cell_def)

lemma fold_scan_rows:
  "\<forall>i\<in>set is. \<forall>j\<in>set js. window_sum s m i j = Inr (f i j) \<Longrightarrow>
     fold (\<lambda>i r. fold (scan_cell s m i) js r) is (Inr a)
       = Inr (fold (\<lambda>i a. fold (\<lambda>j a. smax a (f i j)) js a) is a)"
proof (induction "is" arbitrary: a)
  case Nil
  show ?case by simp
next
  case (Cons i "is")
  have row: "fold (scan_cell s m i) js (Inr a) = Inr (fold (\<lambda>j a. smax a (f i j)) js a)"
    using Cons.prems by (intro fold_scan_cell) simp
  have rest: "\<forall>i\<in>set is. \<forall>j\<in>set js. window_sum s m i j = Inr (f i j)"
    using Cons.prems by simp
  show ?case
    by (simp add: row Cons.IH [OF rest])
qed

lemma smax_fold:
  "sint a \<le> sint (fold (\<lambda>j a. smax a (f j)) js a) \<and>
   (\<forall>j\<in>set js. sint (f j) \<le> sint (fold (\<lambda>j a. smax a (f j)) js a)) \<and>
   (fold (\<lambda>j a. smax a (f j)) js a = a \<or> (\<exists>j\<in>set js. fold (\<lambda>j a. smax a (f j)) js a = f j))"
proof (induction js arbitrary: a)
  case Nil
  show ?case by simp
next
  case (Cons j js)
  let ?r = "fold (\<lambda>j a. smax a (f j)) js (smax a (f j))"
  note ih = Cons.IH [of "smax a (f j)"]
  have s: "sint a \<le> sint (smax a (f j))" "sint (f j) \<le> sint (smax a (f j))"
    "smax a (f j) = a \<or> smax a (f j) = f j"
    by (simp_all add: smax_def)
  have 1: "sint a \<le> sint ?r" using ih s(1) by linarith
  have 2: "sint (f j) \<le> sint ?r" using ih s(2) by linarith
  have 3: "?r = a \<or> ?r = f j \<or> (\<exists>k\<in>set js. ?r = f k)"
    using ih s(3) by auto
  show ?case using 1 2 3 ih by auto
qed

lemma smax_fold2:
  "sint a \<le> sint (fold (\<lambda>i a. fold (\<lambda>j a. smax a (f i j)) js a) is a) \<and>
   (\<forall>i\<in>set is. \<forall>j\<in>set js.
       sint (f i j) \<le> sint (fold (\<lambda>i a. fold (\<lambda>j a. smax a (f i j)) js a) is a)) \<and>
   (fold (\<lambda>i a. fold (\<lambda>j a. smax a (f i j)) js a) is a = a \<or>
    (\<exists>i\<in>set is. \<exists>j\<in>set js. fold (\<lambda>i a. fold (\<lambda>j a. smax a (f i j)) js a) is a = f i j))"
proof (induction "is" arbitrary: a)
  case Nil
  show ?case by simp
next
  case (Cons i "is")
  define a' where "a' = fold (\<lambda>j a. smax a (f i j)) js a"
  define r where "r = fold (\<lambda>i a. fold (\<lambda>j a. smax a (f i j)) js a) is a'"
  have r: "fold (\<lambda>i a. fold (\<lambda>j a. smax a (f i j)) js a) (i # is) a = r"
    by (simp add: r_def a'_def)
  have ih1: "sint a' \<le> sint r"
    and ih2: "\<forall>k\<in>set is. \<forall>j\<in>set js. sint (f k j) \<le> sint r"
    and ih3: "r = a' \<or> (\<exists>k\<in>set is. \<exists>j\<in>set js. r = f k j)"
    using Cons.IH [of a'] unfolding r_def by blast+
  have row1: "sint a \<le> sint a'"
    and row2: "\<forall>j\<in>set js. sint (f i j) \<le> sint a'"
    and row3: "a' = a \<or> (\<exists>j\<in>set js. a' = f i j)"
    using smax_fold [of a "f i" js] unfolding a'_def by blast+
  have 1: "sint a \<le> sint r" using ih1 row1 by linarith
  have 2: "\<forall>k\<in>set (i # is). \<forall>j\<in>set js. sint (f k j) \<le> sint r"
  proof (intro ballI)
    fix k j assume k: "k \<in> set (i # is)" and j: "j \<in> set js"
    show "sint (f k j) \<le> sint r"
    proof (cases "k = i")
      case True
      with row2 j have "sint (f k j) \<le> sint a'" by blast
      with ih1 show ?thesis by linarith
    next
      case False
      with k have "k \<in> set is" by simp
      with ih2 j show ?thesis by blast
    qed
  qed
  have 3: "r = a \<or> (\<exists>k\<in>set (i # is). \<exists>j\<in>set js. r = f k j)"
  proof (cases "r = a'")
    case True
    with row3 show ?thesis by auto
  next
    case False
    with ih3 show ?thesis by auto
  qed
  show ?case unfolding r using 1 2 3 by blast
qed

lemma maxWindowSum_pure:
  assumes "\<forall>i\<in>{m..int MAXC - 1}. \<forall>j\<in>{m..int MAXC - 1}. window_sum s m i j = Inr (f i j)"
  shows "\<exists>r. maxWindowSum m s = Inr r \<and> 0 \<le> sint r \<and>
           (\<forall>i\<in>{m..int MAXC - 1}. \<forall>j\<in>{m..int MAXC - 1}. sint (f i j) \<le> sint r) \<and>
           (r = 0 \<or> (\<exists>i\<in>{m..int MAXC - 1}. \<exists>j\<in>{m..int MAXC - 1}. r = f i j))"
proof -
  let ?is = "[m..int MAXC - 1]"
  let ?r = "fold (\<lambda>i a. fold (\<lambda>j a. smax a (f i j)) ?is a) ?is 0"
  have "maxWindowSum m s = fold (\<lambda>i r. fold (scan_cell s m i) ?is r) ?is (Inr 0)"
    by (simp add: maxWindowSum_def scan_row_def [abs_def])
  also have "\<dots> = Inr ?r"
    using assms by (intro fold_scan_rows) simp
  finally have "maxWindowSum m s = Inr ?r" .
  moreover note smax_fold2 [of 0 f ?is ?is]
  ultimately show ?thesis by simp
qed

lemma sint_word_window:
  assumes "fits pts"
  shows "sint (word_window m a b pts) = windowValue m a b pts"
proof -
  have "(\<Sum>x\<leftarrow>map pv (filter (captured m a b) pts). \<bar>sint x\<bar>) < 2 ^ 31"
    using sum_list_abs_filter [of "\<lambda>p. sint (pv p)" "captured m a b" pts] assms
    by (simp add: fits_def comp_def)
  from sint_sum_list [OF this] show ?thesis
    by (simp add: word_window_def windowValue_def comp_def)
qed

lemma main_windows:
  assumes v: "\<forall>p\<in>set pts. valid_point p" and f: "fits pts" and m: "0 \<le> m"
  shows "\<exists>r. main m pts = Inr r \<and> 0 \<le> sint r \<and>
           (\<forall>a\<in>{0..C - m}. \<forall>b\<in>{0..C - m}. windowValue m a b pts \<le> sint r) \<and>
           (sint r = 0 \<or> (\<exists>a\<in>{0..C - m}. \<exists>b\<in>{0..C - m}. sint r = windowValue m a b pts))"
proof -
  let ?f = "\<lambda>i j. word_window m (i - m) (j - m) pts"
  have "\<forall>i\<in>{m..int MAXC - 1}. \<forall>j\<in>{m..int MAXC - 1}.
          window_sum (buildPrefixSums (cell_total pts)) m i j = Inr (?f i j)"
    using v m by (simp add: window_sum_ok)
  from maxWindowSum_pure [OF this] obtain r where
    r: "maxWindowSum m (buildPrefixSums (cell_total pts)) = Inr r" "0 \<le> sint r"
      "\<forall>i\<in>{m..int MAXC - 1}. \<forall>j\<in>{m..int MAXC - 1}. sint (?f i j) \<le> sint r"
      "r = 0 \<or> (\<exists>i\<in>{m..int MAXC - 1}. \<exists>j\<in>{m..int MAXC - 1}. r = ?f i j)"
    by blast
  have 1: "main m pts = Inr r"
    using r(1) v by (simp add: main_def ingest_valid)
  have 2: "\<forall>a\<in>{0..C - m}. \<forall>b\<in>{0..C - m}. windowValue m a b pts \<le> sint r"
  proof (intro ballI)
    fix a b assume "a \<in> {0..C - m}" "b \<in> {0..C - m}"
    then have "a + m \<in> {m..int MAXC - 1}" "b + m \<in> {m..int MAXC - 1}"
      by (simp_all add: C_def)
    with r(3) have "sint (?f (a + m) (b + m)) \<le> sint r" by blast
    then show "windowValue m a b pts \<le> sint r"
      by (simp add: sint_word_window [OF f])
  qed
  have 3: "sint r = 0 \<or> (\<exists>a\<in>{0..C - m}. \<exists>b\<in>{0..C - m}. sint r = windowValue m a b pts)"
  proof (cases "r = 0")
    case True
    then show ?thesis by simp
  next
    case False
    with r(4) obtain i j where ij: "i \<in> {m..int MAXC - 1}" "j \<in> {m..int MAXC - 1}" "r = ?f i j"
      by blast
    then have "i - m \<in> {0..C - m}" "j - m \<in> {0..C - m}"
      by (simp_all add: C_def)
    moreover have "sint r = windowValue m (i - m) (j - m) pts"
      using ij(3) by (simp add: sint_word_window [OF f])
    ultimately show ?thesis by blast
  qed
  show ?thesis using 1 r(2) 2 3 by blast
qed

section \<open>Computing the output of concrete inputs\<close>

lemma word_of_sint: "sint (r :: int32) = k \<Longrightarrow> r = word_of_int k"
  by auto

lemma main_value:
  assumes v: "\<forall>p\<in>set pts. valid_point p" and f: "fits pts" and m: "0 \<le> m" and k: "0 \<le> k"
    and ub: "\<forall>a\<in>{0..C - m}. \<forall>b\<in>{0..C - m}. windowValue m a b pts \<le> k"
    and at: "k = 0 \<or> (\<exists>a\<in>{0..C - m}. \<exists>b\<in>{0..C - m}. windowValue m a b pts = k)"
  shows "main m pts = Inr (word_of_int k)"
proof -
  from main_windows [OF v f m] obtain r where
    r: "main m pts = Inr r" "0 \<le> sint r"
      "\<forall>a\<in>{0..C - m}. \<forall>b\<in>{0..C - m}. windowValue m a b pts \<le> sint r"
      "sint r = 0 \<or> (\<exists>a\<in>{0..C - m}. \<exists>b\<in>{0..C - m}. sint r = windowValue m a b pts)"
    by blast
  have "sint r \<le> k" using r(4) ub k by auto
  moreover have "k \<le> sint r" using at r(2,3) by auto
  ultimately have "sint r = k" by simp
  then show ?thesis using r(1) by (simp add: word_of_sint)
qed

lemma example_two_points: "main 1 [(0, 0, 1), (1, 1, 1)] = Inr 1"
proof -
  let ?pts = "[(0, 0, 1), (1, 1, 1)] :: point list"
  have v: "\<forall>p\<in>set ?pts. valid_point p"
    by (simp add: valid_point_def px_def py_def C_def MAXC_def)
  have f: "fits ?pts" by (simp add: fits_def pv_def)
  have ub: "\<forall>a\<in>{0..C - 1}. \<forall>b\<in>{0..C - 1}. windowValue 1 a b ?pts \<le> 1"
    by (auto simp: windowValue_def captured_def px_def py_def pv_def)
  have "windowValue 1 0 0 ?pts = 1"
    by (simp add: windowValue_def captured_def px_def py_def pv_def)
  moreover have "(0::int) \<in> {0..C - 1}" by (simp add: C_def MAXC_def)
  ultimately have at: "(1::int) = 0 \<or> (\<exists>a\<in>{0..C - 1}. \<exists>b\<in>{0..C - 1}. windowValue 1 a b ?pts = 1)"
    by blast
  from main_value [OF v f _ _ ub at] show ?thesis by simp
qed

lemma example_same_cell: "main 1 [(3, 3, 5), (3, 3, 7)] = Inr 12"
proof -
  let ?pts = "[(3, 3, 5), (3, 3, 7)] :: point list"
  have v: "\<forall>p\<in>set ?pts. valid_point p"
    by (simp add: valid_point_def px_def py_def C_def MAXC_def)
  have f: "fits ?pts" by (simp add: fits_def pv_def)
  have ub: "\<forall>a\<in>{0..C - 1}. \<forall>b\<in>{0..C - 1}. windowValue 1 a b ?pts \<le> 12"
    by (auto simp: windowValue_def captured_def px_def py_def pv_def)
  have "windowValue 1 3 3 ?pts = 12"
    by (simp add: windowValue_def captured_def px_def py_def pv_def)
  moreover have "(3::int) \<in> {0..C - 1}" by (simp add: C_def MAXC_def)
  ultimately have at: "(12::int) = 0 \<or> (\<exists>a\<in>{0..C - 1}. \<exists>b\<in>{0..C - 1}. windowValue 1 a b ?pts = 12)"
    by blast
  from main_value [OF v f _ _ ub at] show ?thesis by simp
qed

section \<open>Facts about window values\<close>

lemma window_sum_in_range:
  "0 \<le> m \<Longrightarrow> m \<le> i \<Longrightarrow> i < int MAXC \<Longrightarrow> m \<le> j \<Longrightarrow> j < int MAXC \<Longrightarrow>
     window_sum s m i j =
       Inr (s (nat i) (nat j) - s (nat (i - m)) (nat j) - s (nat i) (nat (j - m))
            + s (nat (i - m)) (nat (j - m)))"
  by (simp add: window_sum_def rd_def in_bounds_def)

lemma sum_filter_mono:
  "\<forall>p\<in>set pts. P p \<longrightarrow> Q p \<Longrightarrow> \<forall>p\<in>set pts. 0 \<le> (f p :: int) \<Longrightarrow>
     (\<Sum>p\<leftarrow>filter P pts. f p) \<le> (\<Sum>p\<leftarrow>filter Q pts. f p)"
  by (induction pts) auto

lemma windowValue_Nil: "windowValue m a b [] = 0"
  by (simp add: windowValue_def)

lemma windowValue_full:
  "\<forall>p\<in>set pts. valid_point p \<Longrightarrow> windowValue C 0 0 pts = (\<Sum>p\<leftarrow>pts. sint (pv p))"
proof -
  assume "\<forall>p\<in>set pts. valid_point p"
  then have "filter (captured C 0 0) pts = pts"
    by (intro filter_True) (simp add: captured_def valid_point_def)
  then show ?thesis by (simp add: windowValue_def)
qed

lemma windowValue_unit: "windowValue 1 a b pts = coordTotal pts a b"
proof -
  have "captured 1 a b = (\<lambda>p. px p = a \<and> py p = b)"
    by (auto simp: captured_def fun_eq_iff)
  then show ?thesis by (simp add: windowValue_def coordTotal_def)
qed

lemma coordTotal_absent:
  "\<not> (\<exists>p\<in>set pts. px p = x \<and> py p = y) \<Longrightarrow> coordTotal pts x y = 0"
proof -
  assume "\<not> (\<exists>p\<in>set pts. px p = x \<and> py p = y)"
  then have "filter (\<lambda>p. px p = x \<and> py p = y) pts = []"
    by (simp add: filter_empty_conv)
  then show ?thesis by (simp add: coordTotal_def)
qed

lemma windowValue_grow:
  assumes v: "\<forall>p\<in>set pts. valid_point p" and nn: "\<forall>p\<in>set pts. 0 \<le> sint (pv p)"
    and m: "m1 \<le> m2" "m2 \<le> C" and a: "0 \<le> a" and b: "0 \<le> b"
  shows "windowValue m1 a b pts \<le> windowValue m2 (min a (C - m2)) (min b (C - m2)) pts"
  unfolding windowValue_def
proof (rule sum_filter_mono)
  show "\<forall>p\<in>set pts. captured m1 a b p \<longrightarrow> captured m2 (min a (C - m2)) (min b (C - m2)) p"
    using v m by (auto simp: captured_def valid_point_def)
  show "\<forall>p\<in>set pts. 0 \<le> sint (pv p)" by (rule nn)
qed

lemma bruteForce_bounds:
  assumes "m \<le> C"
  shows "(\<forall>a\<in>{0..C - m}. \<forall>b\<in>{0..C - m}. windowValue m a b pts \<le> bruteForce m pts) \<and>
         (\<exists>a\<in>{0..C - m}. \<exists>b\<in>{0..C - m}. bruteForce m pts = windowValue m a b pts)"
proof -
  let ?S = "(\<lambda>(a, b). windowValue m a b pts) ` ({0..C - m} \<times> {0..C - m})"
  have fin: "finite ?S" by simp
  have ne: "?S \<noteq> {}" using assms by simp
  have "Max ?S \<in> ?S" using fin ne by (rule Max_in)
  then have ex: "\<exists>a\<in>{0..C - m}. \<exists>b\<in>{0..C - m}. bruteForce m pts = windowValue m a b pts"
    unfolding bruteForce_def by auto
  have "\<forall>a\<in>{0..C - m}. \<forall>b\<in>{0..C - m}. windowValue m a b pts \<le> bruteForce m pts"
  proof (intro ballI)
    fix a b assume "a \<in> {0..C - m}" "b \<in> {0..C - m}"
    then have "windowValue m a b pts \<in> ?S" by (intro image_eqI [of _ _ "(a, b)"]) simp_all
    then show "windowValue m a b pts \<le> bruteForce m pts"
      unfolding bruteForce_def using fin by (intro Max_ge)
  qed
  with ex show ?thesis by blast
qed

lemma in_bounds_shift:
  "in_bounds (px p + 1) (py p + 1) \<longleftrightarrow> - 1 \<le> px p \<and> px p < C \<and> - 1 \<le> py p \<and> py p < C"
  by (auto simp: in_bounds_def C_def)

lemma maxWindowSum_no_window: "int MAXC \<le> m \<Longrightarrow> maxWindowSum m s = Inr 0"
  by (simp add: maxWindowSum_def)

lemma maxWindowSum_nonpositive:
  assumes m: "0 \<le> m"
    and np: "\<forall>i\<in>{m..int MAXC - 1}. \<forall>j\<in>{m..int MAXC - 1}.
               \<exists>w. window_sum s m i j = Inr w \<and> sint w \<le> 0"
  shows "maxWindowSum m s = Inr 0"
proof -
  let ?f = "\<lambda>i j. s (nat i) (nat j) - s (nat (i - m)) (nat j) - s (nat i) (nat (j - m))
                   + s (nat (i - m)) (nat (j - m))"
  have ws: "\<forall>i\<in>{m..int MAXC - 1}. \<forall>j\<in>{m..int MAXC - 1}. window_sum s m i j = Inr (?f i j)"
    using m by (simp add: window_sum_in_range)
  from maxWindowSum_pure [OF ws] obtain r where
    r: "maxWindowSum m s = Inr r" "0 \<le> sint r"
      "r = 0 \<or> (\<exists>i\<in>{m..int MAXC - 1}. \<exists>j\<in>{m..int MAXC - 1}. r = ?f i j)"
    by blast
  have "sint r \<le> 0"
  proof (cases "r = 0")
    case True
    then show ?thesis by simp
  next
    case False
    with r(3) obtain i j where ij: "i \<in> {m..int MAXC - 1}" "j \<in> {m..int MAXC - 1}" "r = ?f i j"
      by blast
    from np ij(1,2) obtain w where "window_sum s m i j = Inr w" "sint w \<le> 0" by blast
    moreover from ws ij(1,2) have "window_sum s m i j = Inr (?f i j)" by blast
    ultimately show ?thesis using ij(3) by simp
  qed
  with r(2) have "sint r = 0" by simp
  then have "r = 0" using word_of_sint [of r 0] by simp
  with r(1) show ?thesis by simp
qed

lemma main_no_points: "0 \<le> m \<Longrightarrow> main m [] = Inr 0"
  using main_value [of "[]" m 0] by (simp add: fits_def windowValue_Nil)

lemma example_far_apart:
  assumes c: "0 < c" "c < C" and m: "m = c"
  shows "main m [(0, 0, 1), (c, 0, 1)] = Inr 1"
proof -
  let ?pts = "[(0, 0, 1), (c, 0, 1)] :: point list"
  have v: "\<forall>p\<in>set ?pts. valid_point p"
    using c by (simp add: valid_point_def px_def py_def C_def MAXC_def)
  have f: "fits ?pts" by (simp add: fits_def pv_def)
  have m0: "0 \<le> m" using c m by simp
  have ub: "\<forall>a\<in>{0..C - m}. \<forall>b\<in>{0..C - m}. windowValue m a b ?pts \<le> 1"
    using c m by (auto simp: windowValue_def captured_def px_def py_def pv_def)
  have "windowValue m 0 0 ?pts = 1"
    using c m by (simp add: windowValue_def captured_def px_def py_def pv_def)
  moreover have "(0::int) \<in> {0..C - m}" using c m by simp
  ultimately have at: "(1::int) = 0 \<or> (\<exists>a\<in>{0..C - m}. \<exists>b\<in>{0..C - m}. windowValue m a b ?pts = 1)"
    by blast
  from main_value [OF v f m0 _ ub at] show ?thesis by simp
qed

section \<open>The claims\<close>

text \<open>
  In every statement below the printed number is \<open>sint r\<close> for the result \<open>Inr r\<close>
  of \<open>main\<close>. The variant \<^verbatim>\<open>Project5_enhanced/main.cpp\<close> runs the same three loops
  between its prompts, so the statements hold for its number too.
\<close>

text \<open>
  Claim C1, as amended. For every input whose points have coordinates between 0 and
  \<open>C - 1\<close> and whose values fit (\<open>fits\<close>), and for every window side
  \<open>1 \<le> m \<le> C\<close>, the program prints the larger of 0 and the brute-force maximum of
  the window values over all window placements.
\<close>

theorem C1_result_is_floored_brute_force:
  assumes "\<forall>p\<in>set pts. valid_point p" and "fits pts" and "1 \<le> m" and "m \<le> C"
  shows "\<exists>r. main m pts = Inr r \<and> sint r = max 0 (bruteForce m pts)"
proof -
  have m0: "0 \<le> m" using assms(3) by simp
  from main_windows [OF assms(1,2) m0] obtain r where
    r: "main m pts = Inr r" "0 \<le> sint r"
      "\<forall>a\<in>{0..C - m}. \<forall>b\<in>{0..C - m}. windowValue m a b pts \<le> sint r"
      "sint r = 0 \<or> (\<exists>a\<in>{0..C - m}. \<exists>b\<in>{0..C - m}. sint r = windowValue m a b pts)"
    by blast
  note bf = bruteForce_bounds [OF assms(4), of pts]
  have "bruteForce m pts \<le> sint r" using bf r(3) by auto
  with r(2) have ge: "max 0 (bruteForce m pts) \<le> sint r" by simp
  have "sint r \<le> max 0 (bruteForce m pts)"
  proof (cases "sint r = 0")
    case True
    then show ?thesis by simp
  next
    case False
    with r(4) obtain a b where "a \<in> {0..C - m}" "b \<in> {0..C - m}"
      "sint r = windowValue m a b pts" by blast
    with bf have "sint r \<le> bruteForce m pts" by auto
    then show ?thesis by simp
  qed
  with ge have "sint r = max 0 (bruteForce m pts)" by linarith
  with r(1) show ?thesis by blast
qed

text \<open>The theorem at the input \<^verbatim>\<open>2 1 / 0 0 1 / 1 1 1\<close>.\<close>

theorem C1_result_is_floored_brute_force_witness:
  "valid_point (0, 0, 1) \<and> valid_point (1, 1, 1) \<and> fits [(0, 0, 1), (1, 1, 1)] \<and>
   (1::int) \<le> 1 \<and> 1 \<le> C \<and>
   (\<exists>r. main 1 [(0, 0, 1), (1, 1, 1)] = Inr r \<and> sint r = max 0 (bruteForce 1 [(0, 0, 1), (1, 1, 1)]))"
proof -
  let ?pts = "[(0, 0, 1), (1, 1, 1)] :: point list"
  have v: "\<forall>p\<in>set ?pts. valid_point p"
    by (simp add: valid_point_def px_def py_def C_def MAXC_def)
  have f: "fits ?pts" by (simp add: fits_def pv_def)
  have c: "1 \<le> C" by (simp add: C_def MAXC_def)
  from C1_result_is_floored_brute_force [OF v f _ c] v f c show ?thesis
    by simp
qed

text \<open>
  Claim C1 as stated fails. With the single point \<open>(0, 0, -1)\<close> and \<open>m = C = 5004\<close>
  the only window is worth \<open>-1\<close>, and the program prints 0, the initial value of
  \<^verbatim>\<open>ans\<close>. And a point with \<open>x = C = 5004\<close>, inside \<open>[0, C]\<close>, is written to row
  5005, outside the array.
\<close>

theorem C1_counterexample:
  "main 5004 [(0, 0, - 1)] = Inr 0 \<and> bruteForce 5004 [(0, 0, - 1)] = - 1 \<and>
   main 1 [(5004, 0, 1)] = Inl OutOfBounds"
proof -
  let ?pts = "[(0, 0, - 1)] :: point list"
  have v: "\<forall>p\<in>set ?pts. valid_point p"
    by (simp add: valid_point_def px_def py_def C_def MAXC_def)
  have f: "fits ?pts" by (simp add: fits_def pv_def)
  have ub: "\<forall>a\<in>{0..C - 5004}. \<forall>b\<in>{0..C - 5004}. windowValue 5004 a b ?pts \<le> 0"
    by (simp add: windowValue_def pv_def)
  from main_value [OF v f _ _ ub] have 1: "main 5004 ?pts = Inr 0" by simp
  have 2: "bruteForce 5004 ?pts = - 1"
    by (simp add: bruteForce_def C_def MAXC_def windowValue_def captured_def px_def py_def pv_def)
  have 3: "main 1 [(5004, 0, 1)] = Inl OutOfBounds"
    by (simp add: main_def ingest_point_def in_bounds_def MAXC_def px_def py_def)
  from 1 2 3 show ?thesis by blast
qed

text \<open>
  Claim C2. After \<open>buildPrefixSums\<close>, for all \<open>1 \<le> i, j < MAXC\<close> the table satisfies
  \<open>table[i][j] = table[i-1][j] + table[i][j-1] - table[i-1][j-1] + rawAccum[i][j]\<close>,
  where \<open>rawAccum\<close> is the grid as ingestion left it, and row 0 and column 0 are zero
  (at every index \<open>k\<close>). The points are those of the data model, whose shifted cells
  lie in the array. The equation is one of machine arithmetic: it holds modulo \<open>2^32\<close>
  whatever the values are.
\<close>

theorem C2_prefix_sum_invariant:
  assumes "\<forall>p\<in>set pts. valid_point p" and "1 \<le> i" "i < MAXC" "1 \<le> j" "j < MAXC"
  shows "\<exists>rawAccum. ingest zero_grid pts = Inr rawAccum \<and>
           buildPrefixSums rawAccum i j
             = buildPrefixSums rawAccum (i - 1) j + buildPrefixSums rawAccum i (j - 1)
               - buildPrefixSums rawAccum (i - 1) (j - 1) + rawAccum i j \<and>
           buildPrefixSums rawAccum 0 k = 0 \<and> buildPrefixSums rawAccum k 0 = 0"
proof -
  let ?raw = "cell_total pts"
  obtain i' j' where ij: "i = Suc i'" "j = Suc j'"
    using assms(2,4) by (cases i; cases j) auto
  have z: "?raw 0 k = 0" "?raw k 0 = 0"
    using assms(1) by (simp_all add: cell_total_row0 cell_total_col0 valid_point_def)
  have 1: "buildPrefixSums ?raw i j
             = buildPrefixSums ?raw (i - 1) j + buildPrefixSums ?raw i (j - 1)
               - buildPrefixSums ?raw (i - 1) (j - 1) + ?raw i j"
    using assms(3,5) by (simp add: build_read ij)
  have 2: "buildPrefixSums ?raw 0 k = 0"
    using z by (simp add: build_read)
  have 3: "buildPrefixSums ?raw k 0 = 0"
    using z by (simp add: build_read table_col0)
  from ingest_valid [OF assms(1)] 1 2 3 show ?thesis by blast
qed

text \<open>The theorem for three points, two of them on one coordinate, at the cell \<open>(2, 1)\<close>.\<close>

theorem C2_prefix_sum_invariant_witness:
  "valid_point (0, 0, 1) \<and> valid_point (0, 0, 2) \<and> valid_point (1, 0, 4) \<and>
   (1::nat) \<le> 2 \<and> 2 < MAXC \<and> (1::nat) \<le> 1 \<and> 1 < MAXC \<and>
   (\<exists>rawAccum. ingest zero_grid [(0, 0, 1), (0, 0, 2), (1, 0, 4)] = Inr rawAccum \<and>
      buildPrefixSums rawAccum 2 1
        = buildPrefixSums rawAccum 1 1 + buildPrefixSums rawAccum 2 0
          - buildPrefixSums rawAccum 1 0 + rawAccum 2 1 \<and>
      buildPrefixSums rawAccum 0 7 = 0 \<and> buildPrefixSums rawAccum 7 0 = 0)"
proof -
  let ?pts = "[(0, 0, 1), (0, 0, 2), (1, 0, 4)] :: point list"
  have v: "\<forall>p\<in>set ?pts. valid_point p"
    by (simp add: valid_point_def px_def py_def C_def MAXC_def)
  have b: "2 < MAXC" "1 < MAXC" by (simp_all add: MAXC_def)
  from C2_prefix_sum_invariant [OF v _ b(1) _ b(2), of 7] v b show ?thesis
    by simp
qed

text \<open>
  Claim C3. For a fixed list of ingested points (coordinates between 0 and \<open>C - 1\<close>)
  with non-negative values that fit, the result is monotone in the window side: for
  \<open>1 \<le> m1 \<le> m2 \<le> C\<close> the result for \<open>m1\<close> is at most the result for \<open>m2\<close>.
\<close>

theorem C3_monotone_in_side:
  assumes "\<forall>p\<in>set pts. valid_point p" and "fits pts" and "\<forall>p\<in>set pts. 0 \<le> sint (pv p)"
    and "1 \<le> m1" and "m1 \<le> m2" and "m2 \<le> C"
  shows "\<exists>r1 r2. main m1 pts = Inr r1 \<and> main m2 pts = Inr r2 \<and> sint r1 \<le> sint r2"
proof -
  have m1: "0 \<le> m1" and m2: "0 \<le> m2" using assms(4,5) by simp_all
  from main_windows [OF assms(1,2) m1] obtain r1 where
    r1: "main m1 pts = Inr r1"
      "sint r1 = 0 \<or> (\<exists>a\<in>{0..C - m1}. \<exists>b\<in>{0..C - m1}. sint r1 = windowValue m1 a b pts)"
    by blast
  from main_windows [OF assms(1,2) m2] obtain r2 where
    r2: "main m2 pts = Inr r2" "0 \<le> sint r2"
      "\<forall>a\<in>{0..C - m2}. \<forall>b\<in>{0..C - m2}. windowValue m2 a b pts \<le> sint r2"
    by blast
  have "sint r1 \<le> sint r2"
  proof (cases "sint r1 = 0")
    case True
    with r2(2) show ?thesis by simp
  next
    case False
    with r1(2) obtain a b where ab: "a \<in> {0..C - m1}" "b \<in> {0..C - m1}"
      "sint r1 = windowValue m1 a b pts" by blast
    have "windowValue m1 a b pts \<le> windowValue m2 (min a (C - m2)) (min b (C - m2)) pts"
      using ab(1,2) by (intro windowValue_grow assms) simp_all
    moreover have "min a (C - m2) \<in> {0..C - m2}" "min b (C - m2) \<in> {0..C - m2}"
      using ab(1,2) assms(6) by simp_all
    with r2(3) have "windowValue m2 (min a (C - m2)) (min b (C - m2)) pts \<le> sint r2"
      by blast
    ultimately show ?thesis using ab(3) by linarith
  qed
  with r1(1) r2(1) show ?thesis by blast
qed

text \<open>The theorem for the sides 1 and 2 and the points \<open>(0, 0, 1)\<close> and \<open>(1, 1, 1)\<close>.\<close>

theorem C3_monotone_in_side_witness:
  "valid_point (0, 0, 1) \<and> valid_point (1, 1, 1) \<and> fits [(0, 0, 1), (1, 1, 1)] \<and>
   0 \<le> sint (pv (0, 0, 1)) \<and> 0 \<le> sint (pv (1, 1, 1)) \<and>
   (1::int) \<le> 1 \<and> (1::int) \<le> 2 \<and> 2 \<le> C \<and>
   (\<exists>r1 r2. main 1 [(0, 0, 1), (1, 1, 1)] = Inr r1 \<and> main 2 [(0, 0, 1), (1, 1, 1)] = Inr r2
      \<and> sint r1 \<le> sint r2)"
proof -
  let ?pts = "[(0, 0, 1), (1, 1, 1)] :: point list"
  have v: "\<forall>p\<in>set ?pts. valid_point p"
    by (simp add: valid_point_def px_def py_def C_def MAXC_def)
  have f: "fits ?pts" by (simp add: fits_def pv_def)
  have n: "\<forall>p\<in>set ?pts. 0 \<le> sint (pv p)" by (simp add: pv_def)
  have c: "2 \<le> C" by (simp add: C_def MAXC_def)
  from C3_monotone_in_side [OF v f n _ _ c, of 1] v f n c show ?thesis
    by simp
qed

text \<open>
  Claim C4, as amended. For every input with non-negative point values that fit and
  with coordinates between 0 and \<open>C - 1\<close>, where \<open>C = MAXC - 1 = 5004\<close> is one more
  than the largest coordinate whose shifted cell the array holds, the window side
  \<open>m = C\<close> gives exactly the sum of the values of all points.
\<close>

theorem C4_full_window_is_total:
  assumes "\<forall>p\<in>set pts. valid_point p" and "fits pts" and "\<forall>p\<in>set pts. 0 \<le> sint (pv p)"
  shows "\<exists>r. main C pts = Inr r \<and> sint r = (\<Sum>p\<leftarrow>pts. sint (pv p))"
proof -
  have C0: "0 \<le> C" by (simp add: C_def MAXC_def)
  from main_windows [OF assms(1,2) C0] obtain r where
    r: "main C pts = Inr r" "0 \<le> sint r"
      "\<forall>a\<in>{0..C - C}. \<forall>b\<in>{0..C - C}. windowValue C a b pts \<le> sint r"
      "sint r = 0 \<or> (\<exists>a\<in>{0..C - C}. \<exists>b\<in>{0..C - C}. sint r = windowValue C a b pts)"
    by blast
  let ?t = "\<Sum>p\<leftarrow>pts. sint (pv p)"
  have t: "windowValue C 0 0 pts = ?t"
    by (rule windowValue_full [OF assms(1)])
  have nn: "0 \<le> ?t"
    using assms(3) by (intro sum_list_nonneg) auto
  have le: "?t \<le> sint r" using r(3) t by simp
  have "sint r = 0 \<or> sint r = ?t" using r(4) t by simp
  with le nn have "sint r = ?t" by linarith
  with r(1) show ?thesis by blast
qed

text \<open>The theorem for two points in opposite corners of the grid.\<close>

theorem C4_full_window_is_total_witness:
  "valid_point (0, 0, 4) \<and> valid_point (5003, 5003, 6) \<and> fits [(0, 0, 4), (5003, 5003, 6)] \<and>
   0 \<le> sint (pv (0, 0, 4)) \<and> 0 \<le> sint (pv (5003, 5003, 6)) \<and>
   (\<exists>r. main C [(0, 0, 4), (5003, 5003, 6)] = Inr r \<and> sint r = 10)"
proof -
  let ?pts = "[(0, 0, 4), (5003, 5003, 6)] :: point list"
  have v: "\<forall>p\<in>set ?pts. valid_point p"
    by (simp add: valid_point_def px_def py_def C_def MAXC_def)
  have f: "fits ?pts" by (simp add: fits_def pv_def)
  have n: "\<forall>p\<in>set ?pts. 0 \<le> sint (pv p)" by (simp add: pv_def)
  from C4_full_window_is_total [OF v f n] v f n show ?thesis
    by (simp add: pv_def)
qed

text \<open>
  Claim C4 as stated fails when the window side is the largest coordinate itself. Two
  points at \<open>x = 0\<close> and \<open>x = 5000\<close>, the bound of the source's constraints, lie
  5001 columns apart: no window of side 5000 holds both, and the program prints 1 for
  the sum 2. The same happens at 5003, the largest coordinate the array holds. And
  for \<open>m = 5004\<close> a point at \<open>x = 5004\<close> is written to row 5005, outside the array.
\<close>

theorem C4_counterexample:
  "main 5000 [(0, 0, 1), (5000, 0, 1)] = Inr 1 \<and>
   (\<Sum>p\<leftarrow>[(0, 0, 1), (5000, 0, 1)]. sint (pv p)) = 2 \<and>
   main 5003 [(0, 0, 1), (5003, 0, 1)] = Inr 1 \<and>
   (\<Sum>p\<leftarrow>[(0, 0, 1), (5003, 0, 1)]. sint (pv p)) = 2 \<and>
   main 5004 [(5004, 0, 1)] = Inl OutOfBounds"
proof -
  have 1: "main 5000 [(0, 0, 1), (5000, 0, 1)] = Inr 1"
    by (rule example_far_apart) (simp_all add: C_def MAXC_def)
  have 2: "main 5003 [(0, 0, 1), (5003, 0, 1)] = Inr 1"
    by (rule example_far_apart) (simp_all add: C_def MAXC_def)
  have 3: "main 5004 [(5004, 0, 1)] = Inl OutOfBounds"
    by (simp add: main_def ingest_point_def in_bounds_def MAXC_def px_def py_def)
  have 4: "(\<Sum>p\<leftarrow>[(0, 0, 1), (5000, 0, 1) :: point]. sint (pv p)) = 2"
    "(\<Sum>p\<leftarrow>[(0, 0, 1), (5003, 0, 1) :: point]. sint (pv p)) = 2"
    by (simp_all add: pv_def)
  from 1 2 3 4 show ?thesis by blast
qed

text \<open>
  Claim C5. The values of the points that share a coordinate \<open>(x, y)\<close> accumulate by
  addition in the cell \<open>(x + 1, y + 1)\<close>: after ingestion the cell holds the sum of the
  values of all points given at \<open>(x, y)\<close>. In particular the input of the two points
  \<open>(3, 3, 5)\<close> and \<open>(3, 3, 7)\<close> with \<open>m = 1\<close> gives the output 12.
\<close>

theorem C5_values_accumulate:
  assumes "\<forall>p\<in>set pts. valid_point p" and "0 \<le> x" and "0 \<le> y"
  shows "(\<exists>s. ingest zero_grid pts = Inr s \<and>
              s (nat (x + 1)) (nat (y + 1))
                = sum_list (map pv (filter (\<lambda>p. px p = x \<and> py p = y) pts))) \<and>
         main 1 [(3, 3, 5), (3, 3, 7)] = Inr 12"
proof -
  have "(\<lambda>p. px p + 1 = int (nat (x + 1)) \<and> py p + 1 = int (nat (y + 1)))
          = (\<lambda>p. px p = x \<and> py p = y)"
    using assms(2,3) by (auto simp: fun_eq_iff)
  then have "cell_total pts (nat (x + 1)) (nat (y + 1))
               = sum_list (map pv (filter (\<lambda>p. px p = x \<and> py p = y) pts))"
    by (simp add: cell_total_def)
  with ingest_valid [OF assms(1)] example_same_cell show ?thesis by blast
qed

text \<open>The theorem for the two points of the claim and their coordinate.\<close>

theorem C5_values_accumulate_witness:
  "valid_point (3, 3, 5) \<and> valid_point (3, 3, 7) \<and> (0::int) \<le> 3 \<and>
   (\<exists>s. ingest zero_grid [(3, 3, 5), (3, 3, 7)] = Inr s \<and> s 4 4 = 12) \<and>
   main 1 [(3, 3, 5), (3, 3, 7)] = Inr 12"
proof -
  have v: "\<forall>p\<in>set [(3, 3, 5), (3, 3, 7) :: point]. valid_point p"
    by (simp add: valid_point_def px_def py_def C_def MAXC_def)
  from C5_values_accumulate [OF v, of 3 3] v show ?thesis
    by (simp add: px_def py_def pv_def)
qed

text \<open>
  Claim C6, as amended. For the window side \<open>m = 1\<close> the result is the largest total
  of the values given at one coordinate, or 0 when no total is positive, in particular
  when there are no points (coordinates between 0 and \<open>C - 1\<close>, values that fit).
\<close>

theorem C6_side_one_is_best_cell:
  assumes "\<forall>p\<in>set pts. valid_point p" and "fits pts"
  shows "\<exists>r. main 1 pts = Inr r \<and>
           sint r = Max (insert 0 ((\<lambda>p. coordTotal pts (px p) (py p)) ` set pts))"
proof -
  let ?I = "insert 0 ((\<lambda>p. coordTotal pts (px p) (py p)) ` set pts)"
  from main_windows [OF assms, of 1] obtain r where
    r: "main 1 pts = Inr r" "0 \<le> sint r"
      "\<forall>a\<in>{0..C - 1}. \<forall>b\<in>{0..C - 1}. windowValue 1 a b pts \<le> sint r"
      "sint r = 0 \<or> (\<exists>a\<in>{0..C - 1}. \<exists>b\<in>{0..C - 1}. sint r = windowValue 1 a b pts)"
    by auto
  have fin: "finite ?I" by simp
  have "\<forall>x\<in>?I. x \<le> sint r"
  proof
    fix x assume "x \<in> ?I"
    then consider "x = 0" | p where "p \<in> set pts" "x = coordTotal pts (px p) (py p)" by auto
    then show "x \<le> sint r"
    proof cases
      case 1
      with r(2) show ?thesis by simp
    next
      case 2
      then have "px p \<in> {0..C - 1}" "py p \<in> {0..C - 1}"
        using assms(1) by (auto simp: valid_point_def)
      with r(3) have "windowValue 1 (px p) (py p) pts \<le> sint r" by blast
      with 2 show ?thesis by (simp add: windowValue_unit)
    qed
  qed
  then have le: "Max ?I \<le> sint r" using fin by simp
  have "sint r \<in> ?I"
  proof (cases "sint r = 0")
    case True
    then show ?thesis by simp
  next
    case False
    with r(4) obtain a b where ab: "sint r = coordTotal pts a b"
      by (auto simp: windowValue_unit)
    with False have "\<exists>p\<in>set pts. px p = a \<and> py p = b"
      using coordTotal_absent [of pts a b] by auto
    with ab show ?thesis by auto
  qed
  then have "sint r \<le> Max ?I" using fin by (intro Max_ge)
  with le have "sint r = Max ?I" by linarith
  with r(1) show ?thesis by blast
qed

text \<open>The theorem for two points on one coordinate.\<close>

theorem C6_side_one_is_best_cell_witness:
  "valid_point (3, 3, 5) \<and> valid_point (3, 3, 7) \<and> fits [(3, 3, 5), (3, 3, 7)] \<and>
   (\<exists>r. main 1 [(3, 3, 5), (3, 3, 7)] = Inr r \<and> sint r = 12)"
proof -
  let ?pts = "[(3, 3, 5), (3, 3, 7)] :: point list"
  have v: "\<forall>p\<in>set ?pts. valid_point p"
    by (simp add: valid_point_def px_def py_def C_def MAXC_def)
  have f: "fits ?pts" by (simp add: fits_def pv_def)
  from C6_side_one_is_best_cell [OF v f] v f show ?thesis
    by (simp add: coordTotal_def px_def py_def pv_def)
qed

text \<open>
  Claim C6 as stated fails: for the two points \<open>(3, 3, 5)\<close> and \<open>(3, 3, 7)\<close> the
  program prints 12, and the largest single value is 7.
\<close>

theorem C6_counterexample:
  "main 1 [(3, 3, 5), (3, 3, 7)] = Inr 12 \<and> maxPointValue [(3, 3, 5), (3, 3, 7)] = 7"
  using example_same_cell by (simp add: maxPointValue_def pv_def)

text \<open>
  Claim C7. \<open>maxWindowSum\<close> returns 0 whenever no window fits (\<open>m \<ge> MAXC\<close>) or every
  window sum is non-positive, and an input without points gives the result 0 (for a
  window side \<open>m \<ge> 0\<close>).
\<close>

theorem C7_zero_floor:
  assumes "0 \<le> m"
  shows "main m [] = Inr 0 \<and>
         (int MAXC \<le> m \<or>
          (\<forall>i\<in>{m..int MAXC - 1}. \<forall>j\<in>{m..int MAXC - 1}.
              \<exists>w. window_sum s m i j = Inr w \<and> sint w \<le> 0)
          \<longrightarrow> maxWindowSum m s = Inr 0)"
  using assms maxWindowSum_no_window [of m s] maxWindowSum_nonpositive [of m s]
    main_no_points [of m] by blast

text \<open>
  The theorem for the side 5005, which no window fits, and for the side 1 on the zero
  grid, where every window sum is 0.
\<close>

theorem C7_zero_floor_witness:
  "(0::int) \<le> 5005 \<and> int MAXC \<le> 5005 \<and> main 5005 [] = Inr 0 \<and>
   maxWindowSum 5005 zero_grid = Inr 0 \<and>
   (0::int) \<le> 1 \<and> maxWindowSum 1 zero_grid = Inr 0"
proof -
  have a: "int MAXC \<le> 5005" by (simp add: MAXC_def)
  have b: "\<forall>i\<in>{1..int MAXC - 1}. \<forall>j\<in>{1..int MAXC - 1}.
             \<exists>w. window_sum zero_grid 1 i j = Inr w \<and> sint w \<le> 0"
    by (simp add: window_sum_in_range zero_grid_def)
  from C7_zero_floor [of 5005 zero_grid] C7_zero_floor [of 1 zero_grid] a b
  show ?thesis by simp
qed

text \<open>
  Claim C8, as amended. Ingestion has no range check and no \<^verbatim>\<open>OutOfRangeError\<close>. It
  fails, by an access outside the array, exactly when some point has \<open>x\<close> or \<open>y\<close>
  outside \<open>[-1, C - 1]\<close>, and then no grid results; otherwise every point is added to
  its cell, also a point with \<open>x = -1\<close> or \<open>y = -1\<close>, which lands in row 0 or column 0.
\<close>

theorem C8_ingest_is_unchecked:
  "ingest s pts =
     (if \<exists>p\<in>set pts. px p < - 1 \<or> C \<le> px p \<or> py p < - 1 \<or> C \<le> py p
      then Inl OutOfBounds
      else Inr (\<lambda>i j. s i j + cell_total pts i j))"
proof (cases "\<forall>p\<in>set pts. in_bounds (px p + 1) (py p + 1)")
  case True
  then have "\<not> (\<exists>p\<in>set pts. px p < - 1 \<or> C \<le> px p \<or> py p < - 1 \<or> C \<le> py p)"
    by (auto simp: in_bounds_shift)
  with ingest_ok [OF True] show ?thesis by simp
next
  case False
  then have "\<exists>p\<in>set pts. px p < - 1 \<or> C \<le> px p \<or> py p < - 1 \<or> C \<le> py p"
    unfolding in_bounds_shift by fastforce
  with ingest_fails [OF False] show ?thesis by simp
qed

text \<open>The theorem for a list with a point at \<open>x = 5004\<close> and for a point at \<open>x = -1\<close>.\<close>

theorem C8_ingest_is_unchecked_witness:
  "ingest zero_grid [(0, 0, 1), (5004, 0, 1)] = Inl OutOfBounds \<and>
   ingest zero_grid [(- 1, 2, 5)] = Inr (\<lambda>i j. zero_grid i j + cell_total [(- 1, 2, 5)] i j)"
  using C8_ingest_is_unchecked [of zero_grid "[(0, 0, 1), (5004, 0, 1)]"]
    C8_ingest_is_unchecked [of zero_grid "[(- 1, 2, 5)]"]
  by (simp add: px_def py_def C_def MAXC_def)

text \<open>
  Claim C8 as stated fails: the point \<open>(-1, 0, 5)\<close> has \<open>x\<close> outside \<open>[0, C]\<close>, and
  ingestion does not fail but writes 5 into the cell \<open>(0, 1)\<close>.
\<close>

theorem C8_counterexample:
  "(px (- 1, 0, 5) < 0 \<or> C < px (- 1, 0, 5)) \<and>
   ingest zero_grid [(- 1, 0, 5)] = Inr (zero_grid(0 := (zero_grid 0)(1 := 5)))"
  by (simp add: ingest_point_def in_bounds_def MAXC_def px_def py_def pv_def zero_grid_def)

text \<open>
  Claim C9. For the input \<^verbatim>\<open>2 1\<close> followed by the points \<^verbatim>\<open>0 0 1\<close> and \<^verbatim>\<open>1 1 1\<close>
  the program prints 1.
\<close>

theorem C9_two_points_side_one: "main 1 [(0, 0, 1), (1, 1, 1)] = Inr 1"
  by (rule example_two_points)

text \<open>
  Claim C10, as amended. The write \<^verbatim>\<open>s[x + 1][y + 1] += v\<close> is unguarded: there are
  points for which it is out of bounds (\<open>x = -2\<close>, and \<open>x = 5004\<close>, where \<open>x + 1 = 5005\<close>),
  and it is out of bounds exactly when \<open>-1 \<le> x, y \<le> 5003\<close> does not hold; so it cannot
  fail under the precondition \<open>0 \<le> x, y \<le> 5003\<close>.
\<close>

theorem C10_unguarded_write:
  "ingest_point s (- 2, 0, v) = Inl OutOfBounds \<and>
   ingest_point s (5004, 0, v) = Inl OutOfBounds \<and>
   (ingest_point s p = Inl OutOfBounds
      \<longleftrightarrow> \<not> (- 1 \<le> px p \<and> px p \<le> 5003 \<and> - 1 \<le> py p \<and> py p \<le> 5003))"
  by (auto simp: ingest_point_def in_bounds_def MAXC_def px_def py_def Let_def)

text \<open>The theorem at the points \<open>(5003, 0, 9)\<close>, which is written, and \<open>(0, 5004, 9)\<close>.\<close>

theorem C10_unguarded_write_witness:
  "ingest_point zero_grid (- 2, 0, 9) = Inl OutOfBounds \<and>
   ingest_point zero_grid (5004, 0, 9) = Inl OutOfBounds \<and>
   ingest_point zero_grid (5003, 0, 9) \<noteq> Inl OutOfBounds \<and>
   ingest_point zero_grid (0, 5004, 9) = Inl OutOfBounds"
  using C10_unguarded_write [of zero_grid 9 "(5003, 0, 9)"]
    C10_unguarded_write [of zero_grid 9 "(0, 5004, 9)"]
  by (simp add: px_def py_def)

text \<open>
  Claim C10 as stated fails in its last part: the point \<open>(-1, -1, 7)\<close> is outside
  \<open>0 \<le> x, y \<le> 5003\<close>, and its write is in bounds, into the cell \<open>(0, 0)\<close>.
\<close>

theorem C10_counterexample:
  "\<not> (0 \<le> px (- 1, - 1, 7) \<and> px (- 1, - 1, 7) \<le> 5003 \<and>
      0 \<le> py (- 1, - 1, 7) \<and> py (- 1, - 1, 7) \<le> 5003) \<and>
   ingest_point zero_grid (- 1, - 1, 7) = Inr (zero_grid(0 := (zero_grid 0)(0 := 7)))"
  by (simp add: ingest_point_def in_bounds_def MAXC_def px_def py_def pv_def zero_grid_def)

end
